theory Spec2Isabelle
  imports Complex_Main "HOL-Library.Word" "HOL-Library.Log_Nat"
begin

section \<open>RSVP reader: text preprocessing and the playback scheduler\<close>

text \<open>
  A shallow embedding of \<^verbatim>\<open>utils/orp.ts\<close> (the preprocessor), of the playback
  part of \<^verbatim>\<open>components/RSVP.tsx\<close> (the scheduler) and of the buttons of
  \<^verbatim>\<open>components/RSVPControls.tsx\<close>.

  \<^item> A JavaScript string is a sequence of UTF-16 code units: \<open>16 word list\<close>. Its
    \<^verbatim>\<open>length\<close> is the length of the list, \<^verbatim>\<open>s[i]\<close> is the one-unit string
    \<open>[s ! i]\<close> when \<open>i\<close> is in range and \<^verbatim>\<open>undefined\<close> otherwise.
  \<^item> A JavaScript number that holds an index or a length is a \<open>nat\<close>.
  \<^item> A JavaScript number that holds a time, a duration or a width is an IEEE-754
    double, given by the rational number it denotes (\<open>rat\<close>); see the next section.
\<close>

subsection \<open>Numbers\<close>

text \<open>
  A finite double is a rational number \<open>m * 2 ^ e\<close> with \<open>\<bar>m\<bar> < 2 ^ 53\<close> and
  \<open>- 1074 \<le> e\<close>. An arithmetic operation of JavaScript is the exact operation followed
  by rounding to the nearest double, ties to the even mantissa (\<open>binary64\<close>), and a decimal
  literal such as \<^verbatim>\<open>1.15\<close> denotes the double nearest to it. Not modelled: results of
  magnitude \<open>2 ^ 1024\<close> and more and the division by zero (both infinities in
  JavaScript), \<^verbatim>\<open>NaN\<close>, and the sign of zero. Statements about the value of a duration
  are therefore made for a reading rate that is not zero.
\<close>

definition pow2 :: "int \<Rightarrow> rat" where
  "pow2 e = 2 powi e"

text \<open>For \<open>x > 0\<close>, the exponent \<open>k\<close> with \<open>2 ^ k \<le> x < 2 ^ (k + 1)\<close>.\<close>

definition log2_floor :: "rat \<Rightarrow> int" where
  "log2_floor x = (if 1 \<le> x then bitlen \<lfloor>x\<rfloor> - 1 else - bitlen (\<lceil>1 / x\<rceil> - 1))"

definition round_half_even :: "rat \<Rightarrow> int" where
  "round_half_even q =
     (let f = \<lfloor>q\<rfloor>; r = q - of_int f
      in if r < 1 / 2 then f else if 1 / 2 < r then f + 1 else if even f then f else f + 1)"

text \<open>
  The exponent of the unit in the last place: 52 below the exponent of \<open>x\<close> for a normal
  number, and \<open>- 1074\<close> for a subnormal one.
\<close>

definition ulp_exponent :: "rat \<Rightarrow> int" where
  "ulp_exponent x = max (log2_floor \<bar>x\<bar> - 52) (- 1074)"

definition binary64 :: "rat \<Rightarrow> rat" where
  "binary64 x =
     (if x = 0 then 0
      else of_int (round_half_even (x / pow2 (ulp_exponent x))) * pow2 (ulp_exponent x))"

definition fadd :: "rat \<Rightarrow> rat \<Rightarrow> rat" where
  "fadd a b = binary64 (a + b)"

definition fsub :: "rat \<Rightarrow> rat \<Rightarrow> rat" where
  "fsub a b = binary64 (a - b)"

definition fmul :: "rat \<Rightarrow> rat \<Rightarrow> rat" where
  "fmul a b = binary64 (a * b)"

definition fdiv :: "rat \<Rightarrow> rat \<Rightarrow> rat" where
  "fdiv a b = binary64 (a / b)"

subsection \<open>Strings\<close>

type_synonym js_string = "16 word list"

text \<open>An ASCII literal as a JavaScript string; used to write examples.\<close>

definition ascii :: "string \<Rightarrow> js_string" where
  "ascii s = map of_char s"

text \<open>
  The code units matched by the regular expression class \<^verbatim>\<open>\s\<close> and removed by
  \<^verbatim>\<open>String.prototype.trim\<close> (ECMAScript \<^emph>\<open>WhiteSpace\<close> and \<^emph>\<open>LineTerminator\<close>):
  TAB, LF, VT, FF, CR, SPACE, NBSP, U+1680, U+2000 to U+200A, U+2028, U+2029, U+202F,
  U+205F, U+3000 and U+FEFF.
\<close>

definition isWhiteSpace :: "16 word \<Rightarrow> bool" where
  "isWhiteSpace c \<longleftrightarrow>
     c = 0x09 \<or> c = 0x0A \<or> c = 0x0B \<or> c = 0x0C \<or> c = 0x0D \<or> c = 0x20 \<or> c = 0xA0 \<or>
     c = 0x1680 \<or> (0x2000 \<le> c \<and> c \<le> 0x200A) \<or> c = 0x2028 \<or> c = 0x2029 \<or>
     c = 0x202F \<or> c = 0x205F \<or> c = 0x3000 \<or> c = 0xFEFF"

text \<open>\<^verbatim>\<open>s.trim()\<close>: white space removed from both ends.\<close>

definition trim :: "js_string \<Rightarrow> js_string" where
  "trim s = rev (dropWhile isWhiteSpace (rev (dropWhile isWhiteSpace s)))"

text \<open>
  \<^verbatim>\<open>text.split(/\s+/)\<close>. The split of ECMAScript scans the string from the end \<open>p\<close> of
  the last separator: at a position \<open>q\<close> where the expression does not match it moves
  on, and where it matches (the greedy \<^verbatim>\<open>\s+\<close> matches the whole run of white space
  that starts at \<open>q\<close>) it emits the substring from \<open>p\<close> to \<open>q\<close> and continues behind the
  run. At the end of the string it emits the substring from \<open>p\<close>. So a string that starts
  or ends with white space gives an empty first or last piece, and the empty string gives
  the single piece \<^verbatim>\<open>""\<close>. \<open>piece\<close> is the substring from \<open>p\<close> to \<open>q\<close>.
\<close>

function split_from :: "js_string \<Rightarrow> js_string \<Rightarrow> js_string list" where
  "split_from piece [] = [piece]"
| "split_from piece (c # cs) =
     (if isWhiteSpace c then piece # split_from [] (dropWhile isWhiteSpace cs)
      else split_from (piece @ [c]) cs)"
  by pat_completeness auto
termination
  by (relation "measure (\<lambda>(piece, s). length s)")
     (auto simp: length_dropWhile_le less_Suc_eq_le)

definition split_whitespace :: "js_string \<Rightarrow> js_string list" where
  "split_whitespace s = split_from [] s"

subsection \<open>The preprocessor (utils/orp.ts)\<close>

record PreprocessedWord =
  word :: js_string
  anchorIndex :: nat
  duration :: rat
  beforeText :: js_string
  anchorChar :: js_string
  afterText :: js_string
  beforeOffset :: rat
  afterOffset :: rat

definition calculateORP :: "js_string \<Rightarrow> nat" where
  "calculateORP w =
     (if length w = 0 then 0
      else if length w \<le> 3 then length w div 2
      else max 1 (length w div 3))"

text \<open>
  \<^verbatim>\<open>word[word.length - 1]\<close> is \<^verbatim>\<open>undefined\<close> for the empty word, which equals none of
  the six punctuation marks.
\<close>

definition getPunctuationMultiplier :: "js_string \<Rightarrow> rat" where
  "getPunctuationMultiplier w =
     (if w = [] then 1
      else if last w = 0x2E \<or> last w = 0x21 \<or> last w = 0x3F then binary64 (13 / 10)
      else if last w = 0x2C \<or> last w = 0x3B \<or> last w = 0x3A then binary64 (23 / 20)
      else 1)"

definition calculateMonospaceCharWidth :: "rat \<Rightarrow> rat" where
  "calculateMonospaceCharWidth fontSize = fmul (fmul fontSize 16) (binary64 (6 / 10))"

text \<open>
  The function that \<^verbatim>\<open>processText\<close> maps over the tokens. \<^verbatim>\<open>trimmed[anchorIndex] || ''\<close>
  is the code unit at the anchor, or the empty string when the index is out of range.
\<close>

definition preprocessWord :: "rat \<Rightarrow> rat \<Rightarrow> js_string \<Rightarrow> PreprocessedWord" where
  "preprocessWord baseDuration anchorCharWidth w =
     (let trimmed = trim w;
          anchorIdx = calculateORP trimmed;
          multiplier = getPunctuationMultiplier trimmed
      in \<lparr> word = trimmed,
           anchorIndex = anchorIdx,
           duration = fmul baseDuration multiplier,
           beforeText = take anchorIdx trimmed,
           anchorChar = (if anchorIdx < length trimmed then [trimmed ! anchorIdx] else []),
           afterText = drop (anchorIdx + 1) trimmed,
           beforeOffset = - fdiv anchorCharWidth 2,
           afterOffset = fdiv anchorCharWidth 2 \<rparr>)"

definition processText :: "js_string \<Rightarrow> rat \<Rightarrow> rat \<Rightarrow> PreprocessedWord list" where
  "processText txt baseWpm fontSize =
     (let wordList = filter (\<lambda>w. length w > 0) (split_whitespace txt);
          baseDuration = fmul (fdiv 60 baseWpm) 1000;
          charWidth = calculateMonospaceCharWidth fontSize
      in map (preprocessWord baseDuration charWidth) wordList)"

text \<open>The font size that \<^verbatim>\<open>processText\<close> takes when the caller gives none.\<close>

definition defaultFontSize :: rat where
  "defaultFontSize = 8"

subsection \<open>The word list the specification describes\<close>

text \<open>
  The specification's own description of the tokens, written independently of
  \<^verbatim>\<open>split\<close> and \<^verbatim>\<open>filter\<close>: the white-space-separated tokens of a text are its maximal
  runs of code units that are not white space, in the order of the text.
\<close>

function spec_tokens :: "js_string \<Rightarrow> js_string list" where
  "spec_tokens [] = []"
| "spec_tokens (c # cs) =
     (if isWhiteSpace c then spec_tokens cs
      else (c # takeWhile (\<lambda>x. \<not> isWhiteSpace x) cs)
             # spec_tokens (dropWhile (\<lambda>x. \<not> isWhiteSpace x) cs))"
  by pat_completeness auto
termination
  by (relation "measure length") (auto simp: length_dropWhile_le less_Suc_eq_le)

text \<open>
  The count of white-space-separated tokens: the number of positions where a token
  starts, that is, a code unit that is not white space at the start of the text or right
  after a white-space code unit. \<open>prev\<close> tells whether a token may start at the head.
\<close>

fun token_starts :: "bool \<Rightarrow> js_string \<Rightarrow> nat" where
  "token_starts prev [] = 0"
| "token_starts prev (c # cs) =
     (if \<not> isWhiteSpace c \<and> prev then 1 else 0) + token_starts (isWhiteSpace c) cs"

definition spec_token_count :: "js_string \<Rightarrow> nat" where
  "spec_token_count s = token_starts True s"

text \<open>
  The partition of a record's word that the data model asks for: the three parts make up
  the word, the anchor is one code unit, and for the empty word all three are empty.
\<close>

definition anchor_partition :: "PreprocessedWord \<Rightarrow> bool" where
  "anchor_partition r \<longleftrightarrow>
     beforeText r @ anchorChar r @ afterText r = word r \<and>
     (if word r = [] then beforeText r = [] \<and> anchorChar r = [] \<and> afterText r = []
      else length (anchorChar r) = 1)"

subsection \<open>The playback scheduler (components/RSVP.tsx)\<close>

text \<open>
  The state of the component: the values held by \<^verbatim>\<open>useState\<close> (\<open>textState\<close> is the
  state \<^verbatim>\<open>text\<close>), the values held by \<^verbatim>\<open>useRef\<close>, and \<open>frameCounter\<close>, the last
  handle the browser returned from \<^verbatim>\<open>requestAnimationFrame\<close>. A state setter is modelled
  as an update of the field, \<^verbatim>\<open>undefined\<close> for the current word as \<open>None\<close>.
\<close>

record rsvp =
  textState :: js_string
  preprocessedWords :: "PreprocessedWord list"
  currentWord :: "PreprocessedWord option"
  wpm :: rat
  isPlaying :: bool
  isPaused :: bool
  currentWordIndex :: nat
  wordIndexRef :: nat
  lastTimeRef :: rat
  animationFrameRef :: "nat option"
  wordsRef :: "PreprocessedWord list"
  wpmRef :: rat
  isPlayingRef :: bool
  isPausedRef :: bool
  frameCounter :: nat

definition initialState :: rsvp where
  "initialState =
     \<lparr> textState = [], preprocessedWords = [], currentWord = None, wpm = 300,
       isPlaying = False, isPaused = False, currentWordIndex = 0,
       wordIndexRef = 0, lastTimeRef = 0, animationFrameRef = None, wordsRef = [],
       wpmRef = 300, isPlayingRef = False, isPausedRef = False, frameCounter = 0 \<rparr>"

text \<open>\<^verbatim>\<open>animationFrameRef.current = requestAnimationFrame(loop)\<close>\<close>

definition requestLoopFrame :: "rsvp \<Rightarrow> rsvp" where
  "requestLoopFrame s =
     s\<lparr> animationFrameRef := Some (Suc (frameCounter s)),
        frameCounter := Suc (frameCounter s) \<rparr>"

text \<open>
  \<^verbatim>\<open>if (animationFrameRef.current !== null) { cancelAnimationFrame(...); animationFrameRef.current = null; }\<close>
\<close>

definition cancelLoopFrame :: "rsvp \<Rightarrow> rsvp" where
  "cancelLoopFrame s = s\<lparr> animationFrameRef := None \<rparr>"

text \<open>
  One sample: the animation-frame callback \<^verbatim>\<open>loop(now)\<close>. It reads the refs only, so the
  state setters it calls can be applied at once.
\<close>

definition loop :: "rat \<Rightarrow> rsvp \<Rightarrow> rsvp" where
  "loop now s =
     (if \<not> isPlayingRef s \<or> isPausedRef s then s\<lparr> animationFrameRef := None \<rparr>
      else
        let wordList = wordsRef s; currentIndex = wordIndexRef s in
        if currentIndex \<ge> length wordList
        then s\<lparr> isPlaying := False, isPaused := False, animationFrameRef := None \<rparr>
        else
          let delta = fsub now (lastTimeRef s);
              currentWordData = wordList ! currentIndex
          in requestLoopFrame
               (if delta \<ge> duration currentWordData
                then s\<lparr> currentWord := Some currentWordData,
                        currentWordIndex := currentIndex,
                        wordIndexRef := currentIndex + 1,
                        lastTimeRef := fadd (lastTimeRef s) (duration currentWordData) \<rparr>
                else s))"

text \<open>A run of samples, at the times the browser calls \<^verbatim>\<open>loop\<close> with.\<close>

fun samples :: "rat list \<Rightarrow> rsvp \<Rightarrow> rsvp" where
  "samples [] s = s"
| "samples (now # nows) s = samples nows (loop now s)"

text \<open>
  The records whose boundary was crossed between a state \<open>s\<close> and a later state \<open>s'\<close>:
  those from the index of \<open>s\<close> up to the index of \<open>s'\<close>.
\<close>

definition crossedRecords :: "rsvp \<Rightarrow> rsvp \<Rightarrow> PreprocessedWord list" where
  "crossedRecords s s' =
     take (wordIndexRef s' - wordIndexRef s) (drop (wordIndexRef s) (wordsRef s))"

definition handleTextChange :: "js_string \<Rightarrow> rsvp \<Rightarrow> rsvp" where
  "handleTextChange newText s =
     s\<lparr> textState := newText,
        preprocessedWords := processText newText (wpmRef s) defaultFontSize,
        wordIndexRef := 0, currentWordIndex := 0, currentWord := None,
        isPlaying := False, isPaused := False \<rparr>"

definition handleStart :: "rsvp \<Rightarrow> rsvp" where
  "handleStart s =
     (if length (preprocessedWords s) = 0 then s
      else
        (if wordIndexRef s \<ge> length (preprocessedWords s)
         then s\<lparr> wordIndexRef := 0, currentWordIndex := 0 \<rparr>
         else s)
        \<lparr> isPlaying := True, isPaused := False \<rparr>)"


definition handleResume :: "rsvp \<Rightarrow> rsvp" where
  "handleResume s =
     (if length (preprocessedWords s) = 0 \<or> wordIndexRef s \<ge> length (preprocessedWords s)
      then s\<lparr> wordIndexRef := 0, currentWordIndex := 0 \<rparr>
      else s)
     \<lparr> isPlaying := True, isPaused := False \<rparr>"

definition handleStop :: "rsvp \<Rightarrow> rsvp" where
  "handleStop s =
     s\<lparr> isPlaying := False, isPaused := False, wordIndexRef := 0,
        currentWordIndex := 0, currentWord := None \<rparr>"


text \<open>
  The effects that run after a render. \<open>syncRefs\<close> is the four effects that copy state
  into the refs. \<open>playbackEffect\<close> is the body of the playback effect, with the value of
  \<^verbatim>\<open>performance.now()\<close>; React runs it only when \<^verbatim>\<open>isPlaying\<close> or \<^verbatim>\<open>isPaused\<close> differs from
  the render before (\<open>prev\<close>), after the clean-up of its last run, which cancels the
  pending frame. \<open>reprocessWords\<close> is the animation frame that the effect on the rate and
  the text requests: it runs \<^verbatim>\<open>processText\<close> again when the text is not empty.
\<close>

definition syncRefs :: "rsvp \<Rightarrow> rsvp" where
  "syncRefs s =
     s\<lparr> wordsRef := preprocessedWords s, wpmRef := wpm s,
        isPlayingRef := isPlaying s, isPausedRef := isPaused s \<rparr>"

definition playbackEffect :: "rat \<Rightarrow> rsvp \<Rightarrow> rsvp" where
  "playbackEffect now s =
     (if \<not> isPlaying s \<or> isPaused s \<or> length (wordsRef s) = 0 then cancelLoopFrame s
      else requestLoopFrame (s\<lparr> lastTimeRef := now \<rparr>))"

definition commitEffects :: "bool \<times> bool \<Rightarrow> rat \<Rightarrow> rsvp \<Rightarrow> rsvp" where
  "commitEffects prev now s =
     (let s1 = syncRefs s in
      if prev = (isPlaying s, isPaused s) then s1
      else playbackEffect now (cancelLoopFrame s1))"




subsection \<open>The controls (components/RSVPControls.tsx)\<close>






text \<open>
  A running example: the text \<^verbatim>\<open>"a b c"\<close> typed into the fresh component at the default
  300 words per minute (three records of 200 ms), then Start pressed, the playback effect
  running at time 1000.
\<close>

definition exampleLoaded :: rsvp where
  "exampleLoaded =
     commitEffects (False, False) 0 (handleTextChange (ascii ''a b c'') initialState)"

definition examplePlaying :: rsvp where
  "examplePlaying = commitEffects (False, False) 1000 (handleStart exampleLoaded)"

section \<open>Properties\<close>

text \<open>The defining equations that evaluate the model on a concrete input.\<close>

lemmas preprocessor_defs =
  processText_def split_whitespace_def ascii_def isWhiteSpace_def preprocessWord_def trim_def
  getPunctuationMultiplier_def calculateORP_def calculateMonospaceCharWidth_def defaultFontSize_def

subsection \<open>Rounding\<close>

lemma pow2_pos: "0 < pow2 e"
  by (simp add: pow2_def)

lemma pow2_add: "pow2 (a + b) = pow2 a * pow2 b"
  by (simp add: pow2_def power_int_add)

lemma pow2_mono: "a \<le> b \<Longrightarrow> pow2 a \<le> pow2 b"
  by (simp add: pow2_def power_int_increasing)

lemma pow2_nat: "0 \<le> e \<Longrightarrow> pow2 e = 2 ^ nat e"
  by (simp add: pow2_def power_int_nonneg_exp)

lemma pow2_neg: "pow2 (- e) = 1 / pow2 e"
  by (simp add: pow2_def power_int_minus_divide)

lemma log2_floor_le:
  assumes "0 < x"
  shows "pow2 (log2_floor x) \<le> x"
proof (cases "1 \<le> x")
  case True
  then have pos: "0 < \<lfloor>x\<rfloor>" by simp
  from bitlen_bounds [OF pos] have "2 ^ nat (bitlen \<lfloor>x\<rfloor> - 1) \<le> \<lfloor>x\<rfloor>" by simp
  then have "(of_int (2 ^ nat (bitlen \<lfloor>x\<rfloor> - 1)) :: rat) \<le> of_int \<lfloor>x\<rfloor>"
    by (simp only: of_int_le_iff)
  also have "\<dots> \<le> x" by simp
  finally have "(2 :: rat) ^ nat (bitlen \<lfloor>x\<rfloor> - 1) \<le> x" by simp
  moreover have "0 \<le> bitlen \<lfloor>x\<rfloor> - 1"
    using pos bitlen_eq_zero_iff [of "\<lfloor>x\<rfloor>"] bitlen_nonneg [of "\<lfloor>x\<rfloor>"] by linarith
  ultimately show ?thesis
    using True by (simp add: log2_floor_def pow2_nat)
next
  case False
  define y where "y = 1 / x"
  define n where "n = \<lceil>y\<rceil> - 1"
  from False assms have y1: "1 < y" by (simp add: y_def)
  then have "1 < \<lceil>y\<rceil>" by (simp add: less_ceiling_iff)
  then have npos: "0 < n" by (simp add: n_def)
  from bitlen_bounds [OF npos] have "n < 2 ^ nat (bitlen n)" by simp
  then have "\<lceil>y\<rceil> \<le> 2 ^ nat (bitlen n)" by (simp add: n_def)
  then have "(of_int \<lceil>y\<rceil> :: rat) \<le> of_int (2 ^ nat (bitlen n))"
    by (simp only: of_int_le_iff)
  then have "(of_int \<lceil>y\<rceil> :: rat) \<le> 2 ^ nat (bitlen n)"
    by simp
  moreover have "y \<le> of_int \<lceil>y\<rceil>" by simp
  ultimately have "y \<le> 2 ^ nat (bitlen n)" by (rule order_trans [rotated])
  then have "y \<le> pow2 (bitlen n)"
    by (simp add: pow2_nat bitlen_nonneg)
  then have "1 / pow2 (bitlen n) \<le> x"
    using assms pow2_pos [of "bitlen n"] by (simp add: y_def field_simps)
  then show ?thesis
    using False by (simp add: log2_floor_def pow2_neg n_def y_def)
qed

lemma round_half_even_error: "\<bar>of_int (round_half_even q) - q\<bar> \<le> 1 / 2"
proof -
  have "of_int \<lfloor>q\<rfloor> \<le> q" "q < of_int \<lfloor>q\<rfloor> + 1"
    by linarith+
  then show ?thesis
    by (auto simp: round_half_even_def Let_def)
qed

lemma round_half_even_lower: "of_int n \<le> q \<Longrightarrow> n \<le> round_half_even q"
proof -
  assume "of_int n \<le> q"
  then have "n \<le> \<lfloor>q\<rfloor>" by (simp add: le_floor_iff)
  then show ?thesis
    by (auto simp: round_half_even_def Let_def)
qed

lemma round_half_even_upper: "q \<le> of_int n \<Longrightarrow> round_half_even q \<le> n"
proof -
  assume le: "q \<le> of_int n"
  show ?thesis
  proof (cases "q = of_int n")
    case True
    then show ?thesis by (simp add: round_half_even_def Let_def)
  next
    case False
    with le have "q < of_int n" by simp
    then have "\<lfloor>q\<rfloor> < n" by (simp add: floor_less_iff)
    then show ?thesis
      by (auto simp: round_half_even_def Let_def)
  qed
qed

text \<open>The mantissa of a normal number has 53 bits.\<close>

lemma mantissa_normal:
  assumes "x \<noteq> 0" and "- 1074 < ulp_exponent x"
  shows "2 ^ 52 \<le> \<bar>round_half_even (x / pow2 (ulp_exponent x))\<bar>"
proof -
  let ?e = "ulp_exponent x"
  let ?q = "x / pow2 ?e"
  from assms(2) have e: "?e = log2_floor \<bar>x\<bar> - 52"
    by (simp add: ulp_exponent_def max_def split: if_splits)
  have "pow2 (?e + 52) \<le> \<bar>x\<bar>"
    using log2_floor_le [of "\<bar>x\<bar>"] assms(1) by (simp add: e)
  then have "pow2 52 * pow2 ?e \<le> \<bar>x\<bar>"
    by (simp add: pow2_add mult.commute)
  then have "pow2 52 \<le> \<bar>x\<bar> / pow2 ?e"
    using pow2_pos [of ?e] by (simp add: le_divide_eq)
  then have big: "2 ^ 52 \<le> \<bar>?q\<bar>"
    using pow2_pos [of ?e] by (simp add: pow2_nat abs_divide abs_of_pos)
  show ?thesis
  proof (cases "0 \<le> ?q")
    case True
    with big have "of_int (2 ^ 52) \<le> ?q" by simp
    then have "2 ^ 52 \<le> round_half_even ?q" by (rule round_half_even_lower)
    then show ?thesis by simp
  next
    case False
    with big have "?q \<le> of_int (- (2 ^ 52))" by simp
    then have "round_half_even ?q \<le> - (2 ^ 52)" by (rule round_half_even_upper)
    then show ?thesis by simp
  qed
qed

text \<open>
  Rounding changes a number by at most half a unit in the last place: relative to the
  result by at most \<open>2 ^ - 53\<close>, and for a subnormal result by at most \<open>2 ^ - 1075\<close>.
\<close>

lemma binary64_error:
  "\<bar>binary64 x - x\<bar> \<le> \<bar>binary64 x\<bar> / 2 ^ 53 + 1 / 2 ^ 1075"
proof (cases "x = 0")
  case True
  then show ?thesis by (simp add: binary64_def)
next
  case False
  let ?e = "ulp_exponent x"
  let ?m = "round_half_even (x / pow2 ?e)"
  have p: "0 < pow2 ?e" by (rule pow2_pos)
  have b: "binary64 x = of_int ?m * pow2 ?e"
    using False by (simp add: binary64_def)
  have "binary64 x - x = (of_int ?m - x / pow2 ?e) * pow2 ?e"
    using p by (simp add: b field_simps)
  then have "\<bar>binary64 x - x\<bar> = \<bar>of_int ?m - x / pow2 ?e\<bar> * pow2 ?e"
    using p by (simp add: abs_mult abs_of_pos)
  also have "\<dots> \<le> (1 / 2) * pow2 ?e"
    using p round_half_even_error [of "x / pow2 ?e"] by (intro mult_right_mono) simp_all
  finally have half_ulp: "\<bar>binary64 x - x\<bar> \<le> pow2 ?e / 2" by simp
  have ge: "- 1074 \<le> ?e" by (simp add: ulp_exponent_def)
  show ?thesis
  proof (cases "?e = - 1074")
    case True
    have "pow2 (- 1074) / 2 = 1 / 2 ^ 1075"
      by (simp add: pow2_neg pow2_nat)
    with half_ulp True have "\<bar>binary64 x - x\<bar> \<le> 1 / 2 ^ 1075" by simp
    moreover have "0 \<le> \<bar>binary64 x\<bar> / 2 ^ 53" by simp
    ultimately show ?thesis by linarith
  next
    case False
    with ge have "- 1074 < ?e" by simp
    from mantissa_normal [OF \<open>x \<noteq> 0\<close> this] have "(2 :: int) ^ 52 \<le> \<bar>?m\<bar>" .
    then have "(of_int (2 ^ 52) :: rat) \<le> of_int \<bar>?m\<bar>"
      by (simp only: of_int_le_iff)
    then have "(2 :: rat) ^ 52 \<le> \<bar>of_int ?m\<bar>" by simp
    then have "2 ^ 52 * pow2 ?e \<le> \<bar>of_int ?m\<bar> * pow2 ?e"
      using p by (intro mult_right_mono) simp_all
    also have "\<dots> = \<bar>binary64 x\<bar>"
      using p by (simp add: b abs_mult abs_of_pos)
    finally have "pow2 ?e / 2 \<le> \<bar>binary64 x\<bar> / 2 ^ 53"
      by (simp add: field_simps)
    moreover have "(0 :: rat) \<le> 1 / 2 ^ 1075" by simp
    ultimately show ?thesis using half_ulp by linarith
  qed
qed

lemma log2_floor_less:
  assumes "0 < x"
  shows "x < pow2 (log2_floor x + 1)"
proof (cases "1 \<le> x")
  case True
  then have pos: "0 < \<lfloor>x\<rfloor>" by simp
  from bitlen_bounds [OF pos] have "\<lfloor>x\<rfloor> < 2 ^ nat (bitlen \<lfloor>x\<rfloor>)" by simp
  then have "\<lfloor>x\<rfloor> + 1 \<le> 2 ^ nat (bitlen \<lfloor>x\<rfloor>)" by simp
  then have "(of_int (\<lfloor>x\<rfloor> + 1) :: rat) \<le> of_int (2 ^ nat (bitlen \<lfloor>x\<rfloor>))"
    by (simp only: of_int_le_iff)
  then have "(of_int \<lfloor>x\<rfloor> + 1 :: rat) \<le> 2 ^ nat (bitlen \<lfloor>x\<rfloor>)"
    by simp
  moreover have "x < of_int \<lfloor>x\<rfloor> + 1" by linarith
  ultimately have "x < 2 ^ nat (bitlen \<lfloor>x\<rfloor>)" by (rule less_le_trans [rotated])
  then show ?thesis
    using True by (simp add: log2_floor_def pow2_nat bitlen_nonneg)
next
  case False
  define y where "y = 1 / x"
  define n where "n = \<lceil>y\<rceil> - 1"
  from False assms have y1: "1 < y" by (simp add: y_def)
  then have "1 < \<lceil>y\<rceil>" by (simp add: less_ceiling_iff)
  then have npos: "0 < n" by (simp add: n_def)
  have b1: "1 \<le> bitlen n"
    using npos bitlen_eq_zero_iff [of n] bitlen_nonneg [of n] by linarith
  from bitlen_bounds [OF npos] have "2 ^ nat (bitlen n - 1) \<le> n" by simp
  then have "(of_int (2 ^ nat (bitlen n - 1)) :: rat) \<le> of_int n"
    by (simp only: of_int_le_iff)
  then have "(2 :: rat) ^ nat (bitlen n - 1) \<le> of_int n" by simp
  moreover have "of_int n < y" by (simp add: n_def) linarith
  ultimately have "2 ^ nat (bitlen n - 1) < y" by (rule le_less_trans)
  then have "pow2 (bitlen n - 1) < y"
    using b1 by (simp add: pow2_nat)
  then have "x < 1 / pow2 (bitlen n - 1)"
    using assms pow2_pos [of "bitlen n - 1"] by (simp add: y_def field_simps)
  also have "\<dots> = pow2 (- bitlen n + 1)"
    by (simp add: pow2_neg [symmetric])
  finally show ?thesis
    using False by (simp add: log2_floor_def n_def y_def)
qed

text \<open>Among the multiples of the unit in the last place, the result is a nearest one.\<close>

lemma round_half_even_nearest:
  "\<bar>of_int (round_half_even q) - q\<bar> \<le> \<bar>of_int n - q\<bar>"
proof -
  have f: "of_int \<lfloor>q\<rfloor> \<le> q" "q < of_int \<lfloor>q\<rfloor> + 1"
    by linarith+
  consider "n \<le> \<lfloor>q\<rfloor>" | "\<lfloor>q\<rfloor> + 1 \<le> n" by linarith
  then show ?thesis
  proof cases
    case 1
    then have "(of_int n :: rat) \<le> of_int \<lfloor>q\<rfloor>" by (simp only: of_int_le_iff)
    with f show ?thesis
      by (auto simp: round_half_even_def Let_def)
  next
    case 2
    then have "(of_int (\<lfloor>q\<rfloor> + 1) :: rat) \<le> of_int n" by (simp only: of_int_le_iff)
    then have "(of_int \<lfloor>q\<rfloor> + 1 :: rat) \<le> of_int n" by simp
    with f show ?thesis
      by (auto simp: round_half_even_def Let_def)
  qed
qed

lemma binary64_nearest:
  "\<bar>binary64 x - x\<bar> \<le> \<bar>of_int n * pow2 (ulp_exponent x) - x\<bar>"
proof (cases "x = 0")
  case True
  then show ?thesis by (simp add: binary64_def)
next
  case False
  let ?e = "ulp_exponent x"
  have p: "0 < pow2 ?e" by (rule pow2_pos)
  have "\<bar>binary64 x - x\<bar> = \<bar>of_int (round_half_even (x / pow2 ?e)) - x / pow2 ?e\<bar> * pow2 ?e"
  proof -
    have "binary64 x - x = (of_int (round_half_even (x / pow2 ?e)) - x / pow2 ?e) * pow2 ?e"
      using p False by (simp add: binary64_def field_simps)
    then show ?thesis
      using p by (simp add: abs_mult abs_of_pos)
  qed
  also have "\<dots> \<le> \<bar>of_int n - x / pow2 ?e\<bar> * pow2 ?e"
    using p round_half_even_nearest [of "x / pow2 ?e" n] by (intro mult_right_mono) simp_all
  also have "\<dots> = \<bar>of_int n * pow2 ?e - x\<bar>"
  proof -
    have "(of_int n - x / pow2 ?e) * pow2 ?e = of_int n * pow2 ?e - x"
      using p by (simp add: field_simps)
    then have "\<bar>of_int n * pow2 ?e - x\<bar> = \<bar>of_int n - x / pow2 ?e\<bar> * \<bar>pow2 ?e\<bar>"
      by (simp only: abs_mult [symmetric])
    then show ?thesis
      using p by (simp add: abs_of_pos)
  qed
  finally show ?thesis .
qed

text \<open>The result is a double: a mantissa of at most 53 bits at an exponent from \<open>- 1074\<close>.\<close>

lemma binary64_is_double:
  "\<exists>m e. binary64 x = of_int m * pow2 e \<and> \<bar>m\<bar> \<le> 2 ^ 53 \<and> - 1074 \<le> e"
proof (cases "x = 0")
  case True
  have "binary64 0 = of_int 0 * pow2 0 \<and> \<bar>0 :: int\<bar> \<le> 2 ^ 53 \<and> - 1074 \<le> (0 :: int)"
    by (simp add: binary64_def)
  with True show ?thesis by blast
next
  case False
  let ?e = "ulp_exponent x"
  let ?q = "x / pow2 ?e"
  let ?m = "round_half_even ?q"
  have p: "0 < pow2 ?e" by (rule pow2_pos)
  have ge: "- 1074 \<le> ?e" and ge2: "log2_floor \<bar>x\<bar> - 52 \<le> ?e"
    by (simp_all add: ulp_exponent_def)
  have "\<bar>x\<bar> < pow2 (log2_floor \<bar>x\<bar> + 1)"
    using False by (intro log2_floor_less) simp
  also have "\<dots> \<le> pow2 (?e + 53)"
    using ge2 by (intro pow2_mono) simp
  also have "\<dots> = pow2 ?e * 2 ^ 53"
    by (simp add: pow2_add pow2_nat)
  finally have "\<bar>x\<bar> / pow2 ?e < 2 ^ 53"
    using p by (simp add: divide_less_eq mult.commute)
  then have q: "\<bar>?q\<bar> < 2 ^ 53"
    using p by (simp add: abs_divide abs_of_pos)
  from q have "?q \<le> 2 ^ 53" "- (2 ^ 53) \<le> ?q"
    by linarith+
  then have "?q \<le> of_int (2 ^ 53)" "of_int (- (2 ^ 53)) \<le> ?q"
    by (simp_all only: of_int_power of_int_numeral of_int_minus)
  then have "?m \<le> 2 ^ 53" "- (2 ^ 53) \<le> ?m"
    by (simp_all only: round_half_even_upper round_half_even_lower)
  then have "\<bar>?m\<bar> \<le> 2 ^ 53" by simp
  moreover have "binary64 x = of_int ?m * pow2 ?e"
    using False by (simp add: binary64_def)
  ultimately show ?thesis
    using ge by blast
qed

text \<open>The running sum of doubles against the exact sum.\<close>

lemma float_sum_error:
  assumes "\<forall>k \<le> length ds. \<bar>foldl fadd t0 (take k ds)\<bar> \<le> B"
  shows "\<bar>foldl fadd t0 ds - (t0 + sum_list ds)\<bar>
           \<le> of_nat (length ds) * (B / 2 ^ 53 + 1 / 2 ^ 1075)"
  using assms
proof (induction ds rule: rev_induct)
  case Nil
  show ?case by simp
next
  case (snoc d ds)
  let ?S = "foldl fadd t0 ds"
  let ?S' = "foldl fadd t0 (ds @ [d])"
  define u where "u = B / 2 ^ 53 + 1 / 2 ^ 1075"
  have S': "?S' = binary64 (?S + d)" by (simp add: fadd_def)
  have "\<forall>k \<le> length ds. \<bar>foldl fadd t0 (take k ds)\<bar> \<le> B"
  proof (intro allI impI)
    fix k assume k: "k \<le> length ds"
    then have "k \<le> length (ds @ [d])" by simp
    with snoc.prems have "\<bar>foldl fadd t0 (take k (ds @ [d]))\<bar> \<le> B" by blast
    with k show "\<bar>foldl fadd t0 (take k ds)\<bar> \<le> B" by simp
  qed
  then have IH: "\<bar>?S - (t0 + sum_list ds)\<bar> \<le> of_nat (length ds) * u"
    unfolding u_def by (rule snoc.IH)
  have "\<bar>foldl fadd t0 (take (length (ds @ [d])) (ds @ [d]))\<bar> \<le> B"
    using snoc.prems by blast
  then have bound: "\<bar>?S'\<bar> \<le> B" by simp
  have "\<bar>?S' - (?S + d)\<bar> \<le> \<bar>?S'\<bar> / 2 ^ 53 + 1 / 2 ^ 1075"
    unfolding S' by (rule binary64_error)
  also have "\<dots> \<le> u"
    using bound by (simp add: u_def divide_right_mono)
  finally have step: "\<bar>?S' - (?S + d)\<bar> \<le> u" .
  have "\<bar>?S' - (t0 + sum_list (ds @ [d]))\<bar> = \<bar>(?S' - (?S + d)) + (?S - (t0 + sum_list ds))\<bar>"
    by simp
  also have "\<dots> \<le> \<bar>?S' - (?S + d)\<bar> + \<bar>?S - (t0 + sum_list ds)\<bar>"
    by (rule abs_triangle_ineq)
  also have "\<dots> \<le> u + of_nat (length ds) * u"
    using step IH by (rule add_mono)
  also have "\<dots> = of_nat (length (ds @ [d])) * u"
    by (simp add: algebra_simps)
  finally show ?case by (simp only: u_def)
qed

subsection \<open>Splitting a text into tokens\<close>

text \<open>
  What \<^verbatim>\<open>split\<close> followed by \<^verbatim>\<open>filter\<close> keeps is the list of maximal runs without
  white space; \<^verbatim>\<open>trim\<close> changes none of them.
\<close>

lemma spec_tokens_dropWhile: "spec_tokens (dropWhile isWhiteSpace s) = spec_tokens s"
  by (induction s) auto

lemma split_from_filter:
  "filter (\<lambda>w. w \<noteq> []) (split_from piece s) =
     (if piece = [] then spec_tokens s
      else (piece @ takeWhile (\<lambda>x. \<not> isWhiteSpace x) s)
             # spec_tokens (dropWhile (\<lambda>x. \<not> isWhiteSpace x) s))"
proof (induction piece s rule: split_from.induct)
  case (1 piece)
  show ?case by simp
next
  case (2 piece c cs)
  show ?case
  proof (cases "isWhiteSpace c")
    case True
    with 2 show ?thesis by (simp add: spec_tokens_dropWhile)
  next
    case False
    with 2 show ?thesis by simp
  qed
qed

lemma filter_split_whitespace:
  "filter (\<lambda>w. w \<noteq> []) (split_whitespace s) = spec_tokens s"
  by (simp add: split_whitespace_def split_from_filter)

lemma spec_tokens_clean:
  "w \<in> set (spec_tokens s) \<Longrightarrow> w \<noteq> [] \<and> (\<forall>c \<in> set w. \<not> isWhiteSpace c)"
proof (induction s rule: spec_tokens.induct)
  case 1
  then show ?case by simp
next
  case (2 c cs)
  show ?case
  proof (cases "isWhiteSpace c")
    case True
    with 2 show ?thesis by simp
  next
    case False
    with "2.prems" consider
      "w = c # takeWhile (\<lambda>x. \<not> isWhiteSpace x) cs"
      | "w \<in> set (spec_tokens (dropWhile (\<lambda>x. \<not> isWhiteSpace x) cs))"
      by auto
    then show ?thesis
    proof cases
      case 1
      have "\<not> isWhiteSpace x" if "x \<in> set (takeWhile (\<lambda>x. \<not> isWhiteSpace x) cs)" for x
        using that by (rule set_takeWhileD [THEN conjunct2])
      with 1 False show ?thesis by simp
    next
      case 2
      with "2.IH"(2) False show ?thesis by blast
    qed
  qed
qed

lemma trim_clean:
  assumes "\<forall>c \<in> set w. \<not> isWhiteSpace c"
  shows "trim w = w"
proof -
  have "dropWhile isWhiteSpace w = w"
    using assms by (intro dropWhile_id) simp
  moreover have "dropWhile isWhiteSpace (rev w) = rev w"
    using assms by (intro dropWhile_id) simp
  ultimately show ?thesis by (simp add: trim_def)
qed

lemma token_starts_spec_tokens:
  "token_starts prev s =
     (if prev then length (spec_tokens s)
      else length (spec_tokens (dropWhile (\<lambda>x. \<not> isWhiteSpace x) s)))"
  by (induction s arbitrary: prev) auto

lemma spec_tokens_Nil_iff: "spec_tokens s = [] \<longleftrightarrow> (\<forall>c \<in> set s. isWhiteSpace c)"
  by (induction s) auto

text \<open>processText maps the record builder over the tokens.\<close>

lemma processText_map:
  "processText t rate fs =
     map (preprocessWord (fmul (fdiv 60 rate) 1000) (calculateMonospaceCharWidth fs)) (spec_tokens t)"
  by (simp add: processText_def Let_def filter_split_whitespace)

lemma word_preprocessWord_token:
  "w \<in> set (spec_tokens t) \<Longrightarrow> word (preprocessWord b cw w) = w"
  using spec_tokens_clean [of w t] by (simp add: preprocessWord_def Let_def trim_clean)

lemma map_word_processText: "map word (processText t rate fs) = spec_tokens t"
  by (simp add: processText_map word_preprocessWord_token map_idI)

lemma in_processText:
  "r \<in> set (processText t rate fs) \<longleftrightarrow>
     (\<exists>w \<in> set (spec_tokens t).
        r = preprocessWord (fmul (fdiv 60 rate) 1000) (calculateMonospaceCharWidth fs) w)"
  by (auto simp: processText_map)

subsection \<open>The record of one token\<close>

lemma calculateORP_less: "w \<noteq> [] \<Longrightarrow> calculateORP w < length w"
  by (cases w) (auto simp: calculateORP_def)

lemma anchor_partition_preprocessWord: "anchor_partition (preprocessWord b cw w)"
proof (cases "trim w = []")
  case True
  then show ?thesis
    by (simp add: anchor_partition_def preprocessWord_def Let_def calculateORP_def)
next
  case False
  then have "calculateORP (trim w) < length (trim w)"
    by (rule calculateORP_less)
  then show ?thesis
    using False
    by (simp add: anchor_partition_def preprocessWord_def Let_def id_take_nth_drop [symmetric])
qed

subsection \<open>Samples of the playback loop\<close>

lemma wordsRef_loop: "wordsRef (loop now s) = wordsRef s"
  by (simp add: loop_def requestLoopFrame_def Let_def)

text \<open>A sample leaves the index and the boundary time alone, or crosses one boundary.\<close>

lemma loop_step:
  "(wordIndexRef (loop now s) = wordIndexRef s \<and> lastTimeRef (loop now s) = lastTimeRef s) \<or>
   (wordIndexRef s < length (wordsRef s) \<and>
    wordIndexRef (loop now s) = Suc (wordIndexRef s) \<and>
    lastTimeRef (loop now s) = fadd (lastTimeRef s) (duration (wordsRef s ! wordIndexRef s)))"
  by (simp add: loop_def requestLoopFrame_def Let_def)

lemma wordsRef_samples: "wordsRef (samples nows s) = wordsRef s"
  by (induction nows arbitrary: s) (simp_all add: wordsRef_loop)

lemma wordIndexRef_samples_mono: "wordIndexRef s \<le> wordIndexRef (samples nows s)"
proof (induction nows arbitrary: s)
  case Nil
  show ?case by simp
next
  case (Cons now nows)
  have "wordIndexRef s \<le> wordIndexRef (loop now s)"
    using loop_step [of now s] by auto
  also have "\<dots> \<le> wordIndexRef (samples nows (loop now s))"
    by (rule Cons.IH)
  finally show ?case by simp
qed

lemma take_drop_step:
  assumes "i < length ws" and "Suc i \<le> j"
  shows "take (j - i) (drop i ws) = ws ! i # take (j - Suc i) (drop (Suc i) ws)"
proof -
  from assms(2) have "j - i = Suc (j - Suc i)" by simp
  with assms(1) show ?thesis
    by (simp add: Cons_nth_drop_Suc [symmetric])
qed

lemma lastTimeRef_samples:
  "lastTimeRef (samples nows s) =
     foldl fadd (lastTimeRef s) (map duration (crossedRecords s (samples nows s)))"
proof (induction nows arbitrary: s)
  case Nil
  show ?case by (simp add: crossedRecords_def)
next
  case (Cons now nows)
  let ?s1 = "loop now s"
  let ?s' = "samples nows ?s1"
  have IH: "lastTimeRef ?s' = foldl fadd (lastTimeRef ?s1) (map duration (crossedRecords ?s1 ?s'))"
    by (rule Cons.IH)
  have mono: "wordIndexRef ?s1 \<le> wordIndexRef ?s'"
    by (rule wordIndexRef_samples_mono)
  from loop_step [of now s] show ?case
  proof
    assume "wordIndexRef ?s1 = wordIndexRef s \<and> lastTimeRef ?s1 = lastTimeRef s"
    with IH show ?thesis
      by (simp add: crossedRecords_def wordsRef_loop)
  next
    assume adv: "wordIndexRef s < length (wordsRef s) \<and>
      wordIndexRef ?s1 = Suc (wordIndexRef s) \<and>
      lastTimeRef ?s1 = fadd (lastTimeRef s) (duration (wordsRef s ! wordIndexRef s))"
    with mono have "Suc (wordIndexRef s) \<le> wordIndexRef ?s'" by simp
    with adv have "crossedRecords s ?s' = wordsRef s ! wordIndexRef s # crossedRecords ?s1 ?s'"
      by (simp add: crossedRecords_def wordsRef_loop take_drop_step)
    with IH adv show ?thesis by simp
  qed
qed

lemma wordIndexRef_samples_bound:
  "wordIndexRef (samples nows s) \<le> max (wordIndexRef s) (length (wordsRef s))"
proof (induction nows arbitrary: s)
  case Nil
  show ?case by simp
next
  case (Cons now nows)
  have "wordIndexRef (samples nows (loop now s))
      \<le> max (wordIndexRef (loop now s)) (length (wordsRef (loop now s)))"
    by (rule Cons.IH)
  also have "\<dots> \<le> max (wordIndexRef s) (length (wordsRef s))"
    using loop_step [of now s] by (auto simp: wordsRef_loop)
  finally show ?case by simp
qed

lemma length_crossedRecords:
  "length (crossedRecords s (samples nows s)) = wordIndexRef (samples nows s) - wordIndexRef s"
  using wordIndexRef_samples_bound [of nows s] wordIndexRef_samples_mono [of s nows]
  by (auto simp: crossedRecords_def)

lemma loop_not_playing:
  "\<not> isPlayingRef s \<Longrightarrow> loop now s = s\<lparr> animationFrameRef := None \<rparr>"
  by (simp add: loop_def)


lemma handleResume_empty:
  "preprocessedWords s = [] \<Longrightarrow>
     handleResume s = s\<lparr> wordIndexRef := 0, currentWordIndex := 0, isPlaying := True, isPaused := False \<rparr>"
  by (simp add: handleResume_def)

subsection \<open>The running examples, evaluated\<close>

lemma length_processText: "length (processText t rate fs) = length (spec_tokens t)"
  by (simp add: processText_map)

lemma processText_Nil_iff: "processText t rate fs = [] \<longleftrightarrow> spec_tokens t = []"
  by (simp add: processText_map)

lemma map_duration_processText:
  "map duration (processText t rate fs) =
     map (\<lambda>w. fmul (fmul (fdiv 60 rate) 1000) (getPunctuationMultiplier w)) (spec_tokens t)"
proof -
  have "duration (preprocessWord b cw w) = fmul b (getPunctuationMultiplier w)"
    if "w \<in> set (spec_tokens t)" for b cw w
    using spec_tokens_clean [OF that] by (simp add: preprocessWord_def Let_def trim_clean)
  then show ?thesis
    by (simp add: processText_map)
qed

lemma durations_at_300:
  "fmul (fdiv 60 300) 1000 = 200"
  "fmul 200 (binary64 (13 / 10)) = 260"
  "fmul 200 (binary64 (23 / 20)) = 8092405580431359 / 35184372088832"
  "fmul 200 1 = 200"
  by code_simp+

lemma example_times:
  "fsub 1450 1000 = 450" "fsub 1150 1000 = 150" "fsub 1450 1200 = 250"
  "fsub 1460 1200 = 260" "fsub 1700 1400 = 300"
  "fsub 1200 1000 = 200" "fsub 1400 1200 = 200" "fsub 1600 1400 = 200"
  "fadd 1000 200 = 1200" "fadd 1200 200 = 1400" "fadd 1400 200 = 1600"
  by code_simp+

lemma example_tokens: "spec_tokens (ascii ''a b c'') = [[0x61], [0x62], [0x63]]"
  by (simp add: ascii_def isWhiteSpace_def)

lemma example_durations:
  "map duration (processText (ascii ''a b c'') 300 defaultFontSize) = [200, 200, 200]"
  by (simp add: map_duration_processText example_tokens getPunctuationMultiplier_def
      durations_at_300)

lemma example_facts:
  "wordIndexRef examplePlaying = 0" "lastTimeRef examplePlaying = 1000"
  "isPlayingRef examplePlaying" "\<not> isPausedRef examplePlaying"
  "isPlaying examplePlaying"
  "wordsRef examplePlaying = processText (ascii ''a b c'') 300 defaultFontSize"
  by (simp_all add: examplePlaying_def exampleLoaded_def commitEffects_def handleStart_def
      handleTextChange_def initialState_def syncRefs_def playbackEffect_def
      cancelLoopFrame_def requestLoopFrame_def Let_def processText_Nil_iff example_tokens)

lemma example_words:
  "length (wordsRef examplePlaying) = 3"
  "duration (wordsRef examplePlaying ! 0) = 200"
  "duration (wordsRef examplePlaying ! 1) = 200"
  "duration (wordsRef examplePlaying ! 2) = 200"
  "map duration (wordsRef examplePlaying) = [200, 200, 200]"
proof -
  show d: "map duration (wordsRef examplePlaying) = [200, 200, 200]"
    by (simp add: example_facts(6) example_durations)
  from arg_cong [OF d, of length] show len: "length (wordsRef examplePlaying) = 3"
    by simp
  from arg_cong [OF d, of "\<lambda>ds. ds ! 0"] arg_cong [OF d, of "\<lambda>ds. ds ! 1"]
    arg_cong [OF d, of "\<lambda>ds. ds ! 2"] len
  show "duration (wordsRef examplePlaying ! 0) = 200"
    "duration (wordsRef examplePlaying ! 1) = 200"
    "duration (wordsRef examplePlaying ! 2) = 200"
    by simp_all
qed

lemma example_words_Suc:
  "duration (wordsRef examplePlaying ! Suc 0) = 200"
  "duration (wordsRef examplePlaying ! Suc (Suc 0)) = 200"
  using example_words(3,4) by (simp_all add: numeral_2_eq_2)

text \<open>A sample taken while playing with a record left, in one equation.\<close>

lemma loop_playing:
  assumes "isPlayingRef s" and "\<not> isPausedRef s" and "wordIndexRef s < length (wordsRef s)"
  shows "loop now s =
     requestLoopFrame
       (if fsub now (lastTimeRef s) \<ge> duration (wordsRef s ! wordIndexRef s)
        then s\<lparr> currentWord := Some (wordsRef s ! wordIndexRef s),
                currentWordIndex := wordIndexRef s,
                wordIndexRef := wordIndexRef s + 1,
                lastTimeRef := fadd (lastTimeRef s) (duration (wordsRef s ! wordIndexRef s)) \<rparr>
        else s)"
  using assms by (simp add: loop_def Let_def)

lemma loop_advance:
  assumes "isPlayingRef s \<and> \<not> isPausedRef s \<and> wordsRef s = ws \<and>
           wordIndexRef s = i \<and> lastTimeRef s = t"
    and "i < length ws" and "duration (ws ! i) \<le> fsub now t"
  shows "isPlayingRef (loop now s) \<and> \<not> isPausedRef (loop now s) \<and> wordsRef (loop now s) = ws \<and>
         wordIndexRef (loop now s) = Suc i \<and> lastTimeRef (loop now s) = fadd t (duration (ws ! i))"
  using assms by (simp add: loop_playing requestLoopFrame_def)

lemma loop_wait:
  assumes "isPlayingRef s \<and> \<not> isPausedRef s \<and> wordsRef s = ws \<and>
           wordIndexRef s = i \<and> lastTimeRef s = t"
    and "i < length ws" and "fsub now t < duration (ws ! i)"
  shows "isPlayingRef (loop now s) \<and> \<not> isPausedRef (loop now s) \<and> wordsRef (loop now s) = ws \<and>
         wordIndexRef (loop now s) = i \<and> lastTimeRef (loop now s) = t"
  using assms by (simp add: loop_playing requestLoopFrame_def)

lemma example_one_late_frame:
  "wordIndexRef (loop 1450 examplePlaying) = 1"
  "lastTimeRef (loop 1450 examplePlaying) = 1200"
  "wordsRef (loop 1450 examplePlaying) = wordsRef examplePlaying"
  "isPlaying (loop 1450 examplePlaying)"
  "currentWord (loop 1450 examplePlaying) \<noteq> None"
  "isPlayingRef (loop 1450 examplePlaying)" "\<not> isPausedRef (loop 1450 examplePlaying)"
proof -
  have "loop 1450 examplePlaying =
     requestLoopFrame
       (examplePlaying\<lparr> currentWord := Some (wordsRef examplePlaying ! 0),
                currentWordIndex := 0, wordIndexRef := 1, lastTimeRef := 1200 \<rparr>)"
    by (simp add: loop_playing example_facts(1-5) example_words example_times)
  then show "wordIndexRef (loop 1450 examplePlaying) = 1"
    "lastTimeRef (loop 1450 examplePlaying) = 1200"
    "wordsRef (loop 1450 examplePlaying) = wordsRef examplePlaying"
    "isPlaying (loop 1450 examplePlaying)"
    "currentWord (loop 1450 examplePlaying) \<noteq> None"
    "isPlayingRef (loop 1450 examplePlaying)" "\<not> isPausedRef (loop 1450 examplePlaying)"
    by (simp_all add: requestLoopFrame_def example_facts(1-5))
qed

section \<open>The claims\<close>

subsection \<open>The anchor partition\<close>

text \<open>
  Claim C3. In every record that \<^verbatim>\<open>processText\<close> produces, the text before the anchor,
  the anchor and the text after it make up the word, and the anchor is exactly one code
  unit. The function that builds a record keeps the partition for every word; for the
  empty word all three parts are empty.
\<close>

theorem anchor_partition_of_records:
  "(\<forall>r \<in> set (processText t rate fs). anchor_partition r \<and> length (anchorChar r) = 1) \<and>
   anchor_partition (preprocessWord b cw w)"
proof -
  have "anchor_partition r \<and> length (anchorChar r) = 1"
    if "r \<in> set (processText t rate fs)" for r
  proof -
    from that obtain tok where tok: "tok \<in> set (spec_tokens t)"
      and r: "r = preprocessWord (fmul (fdiv 60 rate) 1000) (calculateMonospaceCharWidth fs) tok"
      by (auto simp: in_processText)
    have "word r \<noteq> []"
      using tok r spec_tokens_clean [of tok t] by (simp add: word_preprocessWord_token)
    moreover have "anchor_partition r"
      unfolding r by (rule anchor_partition_preprocessWord)
    ultimately show ?thesis
      by (simp add: anchor_partition_def)
  qed
  then show ?thesis
    by (simp add: anchor_partition_preprocessWord)
qed

theorem anchor_partition_of_records_witness:
  "processText (ascii ''reading'') 300 8 \<noteq> [] \<and>
   beforeText (hd (processText (ascii ''reading'') 300 8)) = ascii ''re'' \<and>
   anchorChar (hd (processText (ascii ''reading'') 300 8)) = ascii ''a'' \<and>
   afterText (hd (processText (ascii ''reading'') 300 8)) = ascii ''ding'' \<and>
   anchor_partition (hd (processText (ascii ''reading'') 300 8)) \<and>
   word (preprocessWord 200 1 []) = [] \<and>
   anchor_partition (preprocessWord 200 1 [])"
proof -
  have ne: "processText (ascii ''reading'') 300 8 \<noteq> []"
    by (simp add: preprocessor_defs Let_def)
  then have "hd (processText (ascii ''reading'') 300 8) \<in> set (processText (ascii ''reading'') 300 8)"
    by (rule hd_in_set)
  with anchor_partition_of_records [of "ascii ''reading''" 300 8 200 1 "[]"]
  have "anchor_partition (hd (processText (ascii ''reading'') 300 8))"
    and "anchor_partition (preprocessWord 200 1 [])"
    by blast+
  moreover have "beforeText (hd (processText (ascii ''reading'') 300 8)) = ascii ''re''"
    "anchorChar (hd (processText (ascii ''reading'') 300 8)) = ascii ''a''"
    "afterText (hd (processText (ascii ''reading'') 300 8)) = ascii ''ding''"
    "word (preprocessWord 200 1 []) = []"
    by (simp_all add: preprocessor_defs Let_def)
  ultimately show ?thesis using ne by simp
qed

subsection \<open>The anchor index\<close>

text \<open>
  Claim C4. The anchor index depends on the length of the word only: 0 for the empty
  word, half the length (rounded down) up to length 3, and beyond that a third of the
  length (rounded down) but at least 1. The anchor index of every record is this value
  for its word. \<^verbatim>\<open>"a"\<close> gives 0, \<^verbatim>\<open>"cat"\<close> gives 1, \<^verbatim>\<open>"reading"\<close> gives 2.
\<close>

theorem calculateORP_by_length:
  "calculateORP w =
     (if length w = 0 then 0
      else if length w \<le> 3 then length w div 2
      else max 1 (length w div 3)) \<and>
   (length w = length w' \<longrightarrow> calculateORP w = calculateORP w') \<and>
   (\<forall>r \<in> set (processText t rate fs). anchorIndex r = calculateORP (word r)) \<and>
   calculateORP (ascii ''a'') = 0 \<and>
   calculateORP (ascii ''cat'') = 1 \<and>
   calculateORP (ascii ''reading'') = 2"
proof -
  have "anchorIndex r = calculateORP (word r)" if "r \<in> set (processText t rate fs)" for r
    using that by (auto simp: in_processText preprocessWord_def Let_def)
  then show ?thesis
    by (simp add: calculateORP_def ascii_def)
qed

theorem calculateORP_by_length_witness:
  "calculateORP (ascii ''RSVP.'') = 1 \<and>
   calculateORP (ascii ''world'') = calculateORP (ascii ''RSVP.'') \<and>
   map anchorIndex (processText (ascii ''a cat reading'') 300 8) = [0, 1, 2]"
proof -
  have "calculateORP (ascii ''RSVP.'') = 1"
    using calculateORP_by_length [of "ascii ''RSVP.''" "ascii ''world''" "ascii ''a cat reading''" 300 8]
    by (simp add: ascii_def)
  moreover have "calculateORP (ascii ''world'') = calculateORP (ascii ''RSVP.'')"
    using calculateORP_by_length [of "ascii ''world''" "ascii ''RSVP.''" "ascii ''a cat reading''" 300 8]
    by (simp add: ascii_def)
  moreover have "map anchorIndex (processText (ascii ''a cat reading'') 300 8) = [0, 1, 2]"
    by (simp add: preprocessor_defs Let_def)
  ultimately show ?thesis by simp
qed

subsection \<open>Durations\<close>

text \<open>
  Claim C5 says that at 300 words per minute a word that ends in a comma lasts 230 ms.
  The product is taken in doubles: \<^verbatim>\<open>1.15\<close> is not a double, the nearest double lies
  below it, and 200 times that double rounds to the double just below 230.
\<close>

theorem comma_duration_is_not_230:
  "map word (processText (ascii ''Hello,'') 300 8) = [ascii ''Hello,''] \<and>
   map duration (processText (ascii ''Hello,'') 300 8) = [8092405580431359 / 35184372088832] \<and>
   map duration (processText (ascii ''Hello,'') 300 8) \<noteq> [230]"
proof -
  have "map word (processText (ascii ''Hello,'') 300 8) = [ascii ''Hello,'']"
    by (simp add: map_word_processText ascii_def isWhiteSpace_def)
  moreover have "map duration (processText (ascii ''Hello,'') 300 8)
      = [8092405580431359 / 35184372088832]"
    by (simp add: map_duration_processText ascii_def isWhiteSpace_def
        getPunctuationMultiplier_def durations_at_300)
  ultimately show ?thesis by simp
qed

text \<open>
  Claim C5, as the code has it. The duration of every record is
  \<open>(60 / wpm) * 1000\<close> times the multiplier of its word, each operation rounded to a
  double, and the multiplier depends on the last code unit only: the double nearest to
  1.3 after \<^verbatim>\<open>.\<close>, \<^verbatim>\<open>!\<close> or \<^verbatim>\<open>?\<close>, the double nearest to 1.15 after \<^verbatim>\<open>,\<close>, \<^verbatim>\<open>;\<close> or \<^verbatim>\<open>:\<close>,
  and 1 otherwise. At 300 words per minute the base is exactly 200 ms, and the duration
  is exactly 260 ms after a full stop, exactly 200 ms for a plain word, and
  \<open>230 - 2 ^ - 45\<close> ms (printed as 229.99999999999997) after a comma.
\<close>

theorem duration_scaling:
  assumes "rate \<noteq> 0" and "r \<in> set (processText t rate fs)"
  shows "duration r = fmul (fmul (fdiv 60 rate) 1000) (getPunctuationMultiplier (word r)) \<and>
         getPunctuationMultiplier (word r) =
           (if last (word r) \<in> {0x2E, 0x21, 0x3F} then binary64 (13 / 10)
            else if last (word r) \<in> {0x2C, 0x3B, 0x3A} then binary64 (23 / 20)
            else 1) \<and>
         (rate = 300 \<longrightarrow>
            fmul (fdiv 60 rate) 1000 = 200 \<and>
            duration r =
              (if last (word r) \<in> {0x2E, 0x21, 0x3F} then 260
               else if last (word r) \<in> {0x2C, 0x3B, 0x3A} then 230 - 1 / 2 ^ 45
               else 200))"
proof -
  from assms(2) obtain tok where tok: "tok \<in> set (spec_tokens t)"
    and r: "r = preprocessWord (fmul (fdiv 60 rate) 1000) (calculateMonospaceCharWidth fs) tok"
    by (auto simp: in_processText)
  have ne: "word r \<noteq> []"
    using tok r spec_tokens_clean [of tok t] by (simp add: word_preprocessWord_token)
  have d: "duration r = fmul (fmul (fdiv 60 rate) 1000) (getPunctuationMultiplier (word r))"
    by (simp add: r preprocessWord_def Let_def)
  have m: "getPunctuationMultiplier (word r) =
           (if last (word r) \<in> {0x2E, 0x21, 0x3F} then binary64 (13 / 10)
            else if last (word r) \<in> {0x2C, 0x3B, 0x3A} then binary64 (23 / 20)
            else 1)"
    using ne by (simp add: getPunctuationMultiplier_def)
  show ?thesis
    by (simp add: d m durations_at_300)
qed

theorem duration_scaling_witness:
  "(300 :: rat) \<noteq> 0 \<and>
   map word (processText (ascii ''Hello, world. Testing'') 300 8) =
     [ascii ''Hello,'', ascii ''world.'', ascii ''Testing''] \<and>
   duration (processText (ascii ''Hello, world. Testing'') 300 8 ! 0) = 230 - 1 / 2 ^ 45 \<and>
   duration (processText (ascii ''Hello, world. Testing'') 300 8 ! 1) = 260 \<and>
   duration (processText (ascii ''Hello, world. Testing'') 300 8 ! 2) = 200"
proof -
  let ?ps = "processText (ascii ''Hello, world. Testing'') 300 8"
  have w: "map word ?ps = [ascii ''Hello,'', ascii ''world.'', ascii ''Testing'']"
    by (simp add: map_word_processText ascii_def isWhiteSpace_def)
  have len: "length ?ps = 3"
    by (simp add: length_processText ascii_def isWhiteSpace_def)
  have l: "last (word (?ps ! 0)) = 0x2C" "last (word (?ps ! 1)) = 0x2E" "last (word (?ps ! 2)) = 0x67"
    using arg_cong [OF w, of "\<lambda>ws. ws ! 0"] arg_cong [OF w, of "\<lambda>ws. ws ! 1"]
      arg_cong [OF w, of "\<lambda>ws. ws ! 2"] len
    by (simp_all add: ascii_def)
  have mem: "?ps ! 0 \<in> set ?ps" "?ps ! 1 \<in> set ?ps" "?ps ! 2 \<in> set ?ps"
    using len by simp_all
  have nz: "(300 :: rat) \<noteq> 0" by simp
  have "duration (?ps ! 0) = 230 - 1 / 2 ^ 45"
    using duration_scaling [OF nz mem(1)] l(1) by (simp add: durations_at_300)
  moreover have "duration (?ps ! 1) = 260"
    using duration_scaling [OF nz mem(2)] l(2) by (simp add: durations_at_300)
  moreover have "duration (?ps ! 2) = 200"
    using duration_scaling [OF nz mem(3)] l(3) by (simp add: durations_at_300)
  ultimately show ?thesis using w by simp
qed

subsection \<open>One record per token\<close>

text \<open>
  Claim C6. \<^verbatim>\<open>processText\<close> returns one record per white-space-separated token of the
  text, in the order of the text: the words of its records are the tokens, and their
  number is the count of tokens. This holds for every text and every rate.
\<close>

theorem processText_one_record_per_token:
  "map word (processText t rate fs) = spec_tokens t \<and>
   length (processText t rate fs) = spec_token_count t"
proof -
  have "length (processText t rate fs) = length (spec_tokens t)"
    by (simp add: processText_map)
  then show ?thesis
    by (simp add: map_word_processText spec_token_count_def token_starts_spec_tokens)
qed

theorem processText_one_record_per_token_witness:
  "map word (processText (ascii ''  Hello,   world. Testing RSVP. '') 300 8) =
     [ascii ''Hello,'', ascii ''world.'', ascii ''Testing'', ascii ''RSVP.''] \<and>
   length (processText (ascii ''  Hello,   world. Testing RSVP. '') 300 8) = 4"
proof -
  have "spec_tokens (ascii ''  Hello,   world. Testing RSVP. '') =
      [ascii ''Hello,'', ascii ''world.'', ascii ''Testing'', ascii ''RSVP.'']"
    by (simp add: ascii_def isWhiteSpace_def)
  moreover have "spec_token_count (ascii ''  Hello,   world. Testing RSVP. '') = 4"
    by (simp add: spec_token_count_def ascii_def isWhiteSpace_def)
  ultimately show ?thesis
    using processText_one_record_per_token [of "ascii ''  Hello,   world. Testing RSVP. ''" 300 8]
    by simp
qed

subsection \<open>White space only\<close>

text \<open>
  Claim C10. \<^verbatim>\<open>processText\<close> returns the empty sequence exactly for the texts that hold
  white space only (the empty text among them), and the word of every record it produces
  is not empty.
\<close>

theorem whitespace_only_text_gives_no_record:
  "(processText t rate fs = [] \<longleftrightarrow> (\<forall>c \<in> set t. isWhiteSpace c)) \<and>
   (\<forall>r \<in> set (processText t rate fs). word r \<noteq> [])"
proof -
  have "processText t rate fs = [] \<longleftrightarrow> spec_tokens t = []"
    by (simp add: processText_map)
  moreover have "word r \<noteq> []" if "r \<in> set (processText t rate fs)" for r
  proof -
    from that have "word r \<in> set (map word (processText t rate fs))"
      by simp
    then have "word r \<in> set (spec_tokens t)"
      by (simp only: map_word_processText)
    then show ?thesis
      using spec_tokens_clean by blast
  qed
  ultimately show ?thesis
    by (simp add: spec_tokens_Nil_iff)
qed

theorem whitespace_only_text_gives_no_record_witness:
  "processText [0x20, 0x09, 0x0A, 0xA0, 0x3000] 300 8 = [] \<and>
   processText (ascii '' a '') 300 8 \<noteq> [] \<and>
   word (hd (processText (ascii '' a '') 300 8)) \<noteq> []"
proof -
  have "\<forall>c \<in> set [0x20, 0x09, 0x0A, 0xA0, 0x3000 :: 16 word]. isWhiteSpace c"
    by (simp add: isWhiteSpace_def)
  then have "processText [0x20, 0x09, 0x0A, 0xA0, 0x3000] 300 8 = []"
    using whitespace_only_text_gives_no_record [of "[0x20, 0x09, 0x0A, 0xA0, 0x3000]" 300 8]
    by blast
  moreover have "\<not> (\<forall>c \<in> set (ascii '' a ''). isWhiteSpace c)"
    by (simp add: ascii_def isWhiteSpace_def)
  then have ne: "processText (ascii '' a '') 300 8 \<noteq> []"
    using whitespace_only_text_gives_no_record [of "ascii '' a ''" 300 8]
    by blast
  moreover have "word (hd (processText (ascii '' a '') 300 8)) \<noteq> []"
    using whitespace_only_text_gives_no_record [of "ascii '' a ''" 300 8] hd_in_set [OF ne]
    by blast
  ultimately show ?thesis by simp
qed

subsection \<open>Drift-free playback\<close>

text \<open>
  Claim C1 (drift-free playback). A sample that crosses a record boundary moves
  \<^verbatim>\<open>lastTimeRef\<close> forward by the duration of that record, never to the time of the sample.
  So after any run of samples, at whatever times they are taken, the boundary time is the
  running sum, in doubles, of the start time and the durations of the records crossed, as
  many records as the index has advanced: what a late sample overshoots stays in the
  elapsed time of the next one. This sum differs from the exact sum by the rounding of
  the additions only, at most \<open>B / 2 ^ 53 + 2 ^ - 1075\<close> for each record crossed when the
  boundary times stay below \<open>B\<close> in magnitude.
\<close>

theorem scheduled_time_is_sum_of_durations:
  "lastTimeRef (samples nows s) =
     foldl fadd (lastTimeRef s) (map duration (crossedRecords s (samples nows s))) \<and>
   length (crossedRecords s (samples nows s)) = wordIndexRef (samples nows s) - wordIndexRef s \<and>
   wordIndexRef s \<le> wordIndexRef (samples nows s) \<and>
   ((\<forall>k \<le> length (crossedRecords s (samples nows s)).
       \<bar>foldl fadd (lastTimeRef s) (take k (map duration (crossedRecords s (samples nows s))))\<bar> \<le> B) \<longrightarrow>
    \<bar>lastTimeRef (samples nows s)
       - (lastTimeRef s + sum_list (map duration (crossedRecords s (samples nows s))))\<bar>
      \<le> of_nat (length (crossedRecords s (samples nows s))) * (B / 2 ^ 53 + 1 / 2 ^ 1075))"
proof -
  let ?ds = "map duration (crossedRecords s (samples nows s))"
  have sum: "lastTimeRef (samples nows s) = foldl fadd (lastTimeRef s) ?ds"
    by (rule lastTimeRef_samples)
  have "\<bar>foldl fadd (lastTimeRef s) ?ds - (lastTimeRef s + sum_list ?ds)\<bar>
      \<le> of_nat (length ?ds) * (B / 2 ^ 53 + 1 / 2 ^ 1075)"
    if "\<forall>k \<le> length ?ds. \<bar>foldl fadd (lastTimeRef s) (take k ?ds)\<bar> \<le> B"
    using that by (rule float_sum_error)
  then show ?thesis
    by (simp add: sum [symmetric] length_crossedRecords wordIndexRef_samples_mono)
qed

theorem scheduled_time_is_sum_of_durations_witness:
  "wordIndexRef (samples [1450, 1460, 1700] examplePlaying) = 3 \<and>
   lastTimeRef (samples [1450, 1460, 1700] examplePlaying) = 1600 \<and>
   wordIndexRef (samples [1200, 1400, 1600] examplePlaying) = 3 \<and>
   lastTimeRef (samples [1200, 1400, 1600] examplePlaying) = 1600 \<and>
   \<bar>lastTimeRef (samples [1450, 1460, 1700] examplePlaying) - (1000 + (200 + 200 + 200))\<bar>
     \<le> 3 * (1600 / 2 ^ 53 + 1 / 2 ^ 1075)"
proof -
  let ?ws = "wordsRef examplePlaying"
  let ?a = "samples [1450, 1460, 1700] examplePlaying"
  let ?b = "samples [1200, 1400, 1600] examplePlaying"
  note ev = example_words(1-4) example_words_Suc example_times
  have s0: "isPlayingRef examplePlaying \<and> \<not> isPausedRef examplePlaying \<and>
      wordsRef examplePlaying = ?ws \<and> wordIndexRef examplePlaying = 0 \<and>
      lastTimeRef examplePlaying = 1000"
    by (simp add: example_facts(1-4))
  have a1: "isPlayingRef (loop 1450 examplePlaying) \<and> \<not> isPausedRef (loop 1450 examplePlaying) \<and>
      wordsRef (loop 1450 examplePlaying) = ?ws \<and> wordIndexRef (loop 1450 examplePlaying) = Suc 0 \<and>
      lastTimeRef (loop 1450 examplePlaying) = 1200"
    using loop_advance [OF s0, of 1450] by (simp add: ev)
  have a2: "isPlayingRef (loop 1460 (loop 1450 examplePlaying)) \<and>
      \<not> isPausedRef (loop 1460 (loop 1450 examplePlaying)) \<and>
      wordsRef (loop 1460 (loop 1450 examplePlaying)) = ?ws \<and>
      wordIndexRef (loop 1460 (loop 1450 examplePlaying)) = Suc (Suc 0) \<and>
      lastTimeRef (loop 1460 (loop 1450 examplePlaying)) = 1400"
    using loop_advance [OF a1, of 1460] by (simp add: ev)
  have a3: "wordIndexRef ?a = Suc (Suc (Suc 0))"
    using loop_advance [OF a2, of 1700] by (simp add: ev)
  have b1: "isPlayingRef (loop 1200 examplePlaying) \<and> \<not> isPausedRef (loop 1200 examplePlaying) \<and>
      wordsRef (loop 1200 examplePlaying) = ?ws \<and> wordIndexRef (loop 1200 examplePlaying) = Suc 0 \<and>
      lastTimeRef (loop 1200 examplePlaying) = 1200"
    using loop_advance [OF s0, of 1200] by (simp add: ev)
  have b2: "isPlayingRef (loop 1400 (loop 1200 examplePlaying)) \<and>
      \<not> isPausedRef (loop 1400 (loop 1200 examplePlaying)) \<and>
      wordsRef (loop 1400 (loop 1200 examplePlaying)) = ?ws \<and>
      wordIndexRef (loop 1400 (loop 1200 examplePlaying)) = Suc (Suc 0) \<and>
      lastTimeRef (loop 1400 (loop 1200 examplePlaying)) = 1400"
    using loop_advance [OF b1, of 1400] by (simp add: ev)
  have b3: "wordIndexRef ?b = Suc (Suc (Suc 0))"
    using loop_advance [OF b2, of 1600] by (simp add: ev)
  have i: "wordIndexRef ?a = 3" "wordIndexRef ?b = 3"
    using a3 b3 by (simp_all only: numeral_3_eq_3)
  have ds: "map duration (take 3 ?ws) = [200, 200, 200]"
    by (simp add: take_map [symmetric] example_words(5))
  have ca: "map duration (crossedRecords examplePlaying ?a) = [200, 200, 200]"
    and cb: "map duration (crossedRecords examplePlaying ?b) = [200, 200, 200]"
    by (simp_all only: crossedRecords_def i example_facts(1) diff_zero drop_0 ds)
  have la: "lastTimeRef ?a = 1600"
    using scheduled_time_is_sum_of_durations [of "[1450, 1460, 1700]" examplePlaying 1600]
    by (simp only: ca example_facts(2) foldl.simps example_times)
  have lb: "lastTimeRef ?b = 1600"
    using scheduled_time_is_sum_of_durations [of "[1200, 1400, 1600]" examplePlaying 1600]
    by (simp only: cb example_facts(2) foldl.simps example_times)
  have "\<bar>foldl fadd (lastTimeRef examplePlaying)
            (take k (map duration (crossedRecords examplePlaying ?a)))\<bar> \<le> 1600"
    if "k \<le> length (crossedRecords examplePlaying ?a)" for k
  proof -
    from that have "k \<le> 3"
      using arg_cong [OF ca, of length] by simp
    then consider "k = 0" | "k = 1" | "k = 2" | "k = 3"
      by linarith
    then show ?thesis
      unfolding ca example_facts(2)
      by cases (simp_all add: example_times)
  qed
  with scheduled_time_is_sum_of_durations [of "[1450, 1460, 1700]" examplePlaying 1600]
  have "\<bar>lastTimeRef ?a - (lastTimeRef examplePlaying
            + sum_list (map duration (crossedRecords examplePlaying ?a)))\<bar>
      \<le> of_nat (length (crossedRecords examplePlaying ?a)) * (1600 / 2 ^ 53 + 1 / 2 ^ 1075)"
    by blast
  moreover have "length (crossedRecords examplePlaying ?a) = 3"
    using arg_cong [OF ca, of length] by simp
  ultimately
  have "\<bar>lastTimeRef ?a - (1000 + (200 + 200 + 200))\<bar> \<le> 3 * (1600 / 2 ^ 53 + 1 / 2 ^ 1075)"
    unfolding ca example_facts(2) by simp
  with i la lb show ?thesis
    by (simp only: simp_thms)
qed

subsection \<open>One boundary per sample\<close>

text \<open>
  Claim C2 says that one sample repeats the boundary-crossing step until the elapsed time
  no longer covers a full record. The code takes the step in a single \<^verbatim>\<open>if\<close>. In the
  running example a frame that arrives 450 ms after the start crosses the first boundary
  only: 250 ms remain, the second record lasts 200 ms, and two records are left.
\<close>

theorem one_sample_can_leave_a_covered_record:
  "wordIndexRef (loop 1450 examplePlaying) = 1 \<and>
   length (wordsRef (loop 1450 examplePlaying)) = 3 \<and>
   fsub 1450 (lastTimeRef (loop 1450 examplePlaying)) = 250 \<and>
   duration (wordsRef (loop 1450 examplePlaying) ! wordIndexRef (loop 1450 examplePlaying)) = 200 \<and>
   \<not> (fsub 1450 (lastTimeRef (loop 1450 examplePlaying))
        < duration (wordsRef (loop 1450 examplePlaying) ! wordIndexRef (loop 1450 examplePlaying)) \<or>
      length (wordsRef (loop 1450 examplePlaying)) \<le> wordIndexRef (loop 1450 examplePlaying))"
  by (simp add: example_one_late_frame(1-3) example_words example_words_Suc example_times)

text \<open>
  Claim C2, as the code has it. One sample taken while playing, with a record left,
  crosses at most one boundary. If the elapsed time covers the duration \<open>d\<close> of the
  current record, the index advances by exactly one and \<^verbatim>\<open>lastTimeRef\<close> by \<open>d\<close>; the
  elapsed time that remains is measured from the new boundary and may still cover the
  next record, which is then left to the samples that follow. Otherwise nothing
  advances, and the elapsed time is less than \<open>d\<close>.
\<close>

theorem loop_crosses_at_most_one_boundary:
  assumes "isPlayingRef s" and "\<not> isPausedRef s" and "wordIndexRef s < length (wordsRef s)"
  shows "wordsRef (loop now s) = wordsRef s \<and>
    (if fsub now (lastTimeRef s) \<ge> duration (wordsRef s ! wordIndexRef s)
     then wordIndexRef (loop now s) = wordIndexRef s + 1 \<and>
          lastTimeRef (loop now s) = fadd (lastTimeRef s) (duration (wordsRef s ! wordIndexRef s)) \<and>
          currentWord (loop now s) = Some (wordsRef s ! wordIndexRef s)
     else wordIndexRef (loop now s) = wordIndexRef s \<and>
          lastTimeRef (loop now s) = lastTimeRef s \<and>
          currentWord (loop now s) = currentWord s \<and>
          fsub now (lastTimeRef (loop now s)) < duration (wordsRef s ! wordIndexRef s))"
  using assms by (auto simp: loop_def requestLoopFrame_def Let_def)

theorem loop_crosses_at_most_one_boundary_witness:
  "wordIndexRef (loop 1450 examplePlaying) = 1 \<and>
   lastTimeRef (loop 1450 examplePlaying) = 1200 \<and>
   wordIndexRef (loop 1150 examplePlaying) = 0 \<and>
   lastTimeRef (loop 1150 examplePlaying) = 1000"
proof -
  have len: "wordIndexRef examplePlaying < length (wordsRef examplePlaying)"
    by (simp add: example_facts(1) example_words(1))
  show ?thesis
    using loop_crosses_at_most_one_boundary [OF example_facts(3) example_facts(4) len, of 1450]
      loop_crosses_at_most_one_boundary [OF example_facts(3) example_facts(4) len, of 1150]
    by (simp add: example_facts(1,2) example_words example_times)
qed

subsection \<open>Stop\<close>

text \<open>
  Claim C7. From every state, \<^verbatim>\<open>handleStop\<close> sets the index to 0 (the state and the
  ref), leaves the component neither playing nor paused, and clears the current word.
  Once the effects of the next render have run the refs say the same, and a frame that
  still arrives changes nothing but the frame handle.
\<close>

theorem handleStop_resets:
  "currentWordIndex (handleStop s) = 0 \<and>
   wordIndexRef (handleStop s) = 0 \<and>
   \<not> isPlaying (handleStop s) \<and>
   \<not> isPaused (handleStop s) \<and>
   currentWord (handleStop s) = None \<and>
   \<not> isPlayingRef (commitEffects prev t (handleStop s)) \<and>
   \<not> isPausedRef (commitEffects prev t (handleStop s)) \<and>
   loop now (commitEffects prev t (handleStop s))
     = (commitEffects prev t (handleStop s))\<lparr> animationFrameRef := None \<rparr>"
proof -
  have "\<not> isPlayingRef (commitEffects prev t (handleStop s))"
    by (simp add: handleStop_def commitEffects_def syncRefs_def playbackEffect_def
        cancelLoopFrame_def Let_def)
  moreover from this
  have "loop now (commitEffects prev t (handleStop s))
     = (commitEffects prev t (handleStop s))\<lparr> animationFrameRef := None \<rparr>"
    by (rule loop_not_playing)
  moreover have "\<not> isPausedRef (commitEffects prev t (handleStop s))"
    by (simp add: handleStop_def commitEffects_def syncRefs_def playbackEffect_def
        cancelLoopFrame_def Let_def)
  ultimately show ?thesis
    by (simp add: handleStop_def)
qed

theorem handleStop_resets_witness:
  "isPlaying (loop 1450 examplePlaying) \<and>
   wordIndexRef (loop 1450 examplePlaying) = 1 \<and>
   currentWord (loop 1450 examplePlaying) \<noteq> None \<and>
   currentWordIndex (handleStop (loop 1450 examplePlaying)) = 0 \<and>
   wordIndexRef (handleStop (loop 1450 examplePlaying)) = 0 \<and>
   \<not> isPlaying (handleStop (loop 1450 examplePlaying)) \<and>
   \<not> isPaused (handleStop (loop 1450 examplePlaying)) \<and>
   currentWord (handleStop (loop 1450 examplePlaying)) = None \<and>
   animationFrameRef (commitEffects (True, False) 1500 (handleStop (loop 1450 examplePlaying))) = None"
proof -
  have "animationFrameRef (commitEffects (True, False) 1500 (handleStop (loop 1450 examplePlaying))) = None"
    by (simp add: commitEffects_def handleStop_def syncRefs_def playbackEffect_def
        cancelLoopFrame_def Let_def)
  then show ?thesis
    using example_one_late_frame(1,4,5)
      handleStop_resets [of "loop 1450 examplePlaying" "(True, False)" 1500 1516]
    by simp
qed

subsection \<open>Start and resume without words\<close>




end
